theory Spec2Isabelle
  imports Main "HOL-Library.AList" "HOL-Library.Word"
begin

unbundle bit_operations_syntax

section \<open>NVPTXUtilities: the NVVM annotation cache and its queries\<close>

text \<open>
  A shallow embedding of \<^verbatim>\<open>llvm/lib/Target/NVPTX/NVPTXUtilities.cpp\<close>.

  \<^item> Pointers (\<^verbatim>\<open>const Module *\<close>, \<^verbatim>\<open>const GlobalValue *\<close>) are addresses, modelled
    as natural numbers; two objects are the same object iff their addresses are equal.
  \<^item> The program representation the file only reads (parent module of a global value,
    the module's \<^verbatim>\<open>nvvm.annotations\<close> named metadata, calling conventions, attribute
    lists) is a read-only store, the record \<open>ir\<close>.
  \<^item> A \<^verbatim>\<open>std::map\<close> is an association list read through \<open>map_of\<close>;
    \<^verbatim>\<open>operator[]\<close> on a missing key inserts a default-constructed value, which is
    written out (\<open>subscript\<close>).
  \<^item> The global \<^verbatim>\<open>AnnotationCache\<close> is passed explicitly and returned updated. The
    (recursive) mutex only serialises whole operations and is not modelled: every
    function below is one atomic step.
  \<^item> The model is the assertion-enabled build: a failing \<^verbatim>\<open>assert\<close> is the value
    \<open>Inl e\<close>, after which the process is gone and there is no state.
  \<^item> \<^verbatim>\<open>unsigned\<close> is \<open>32 word\<close>; the result of \<^verbatim>\<open>getZExtValue()\<close> is \<open>64 word\<close>
    and is truncated when stored into a \<^verbatim>\<open>std::vector<unsigned>\<close>.
\<close>

subsection \<open>Data model\<close>

type_synonym module_ptr = nat
type_synonym gv_ptr = nat
type_synonym unsigned = "32 word"

text \<open>
  One metadata operand. \<open>Null\<close> is a null operand, \<open>ConstantInt v\<close> a constant integer
  wrapped as metadata (\<open>v\<close> is what \<^verbatim>\<open>getZExtValue()\<close> returns), \<open>GlobalValueMD g\<close> a
  global value wrapped as metadata, \<open>OtherMetadata\<close> anything else.
\<close>

datatype metadata =
    Null
  | MDString string
  | ConstantInt "64 word"
  | GlobalValueMD gv_ptr
  | OtherMetadata

text \<open>An \<^verbatim>\<open>MDNode\<close> is the sequence of its operands.\<close>

type_synonym MDNode = "metadata list"

datatype CallingConv = C | PTX_Kernel | PTX_Device

datatype error =
    Invalid_number_of_operands
  | Annotation_property_not_a_string
  | Value_operand_not_a_constant_int
  | Unexpected_annotation
  | Operand_out_of_range
  | Cast_of_null
  | Vector_index_out_of_range

type_synonym key_val_pair_t = "(string \<times> unsigned list) list"
type_synonym global_val_annot_t = "(gv_ptr \<times> key_val_pair_t) list"
type_synonym AnnotationCache = "(module_ptr \<times> global_val_annot_t) list"

text \<open>
  The read-only program representation. \<open>getNamedMetadata ir m\<close> is
  \<^verbatim>\<open>m->getNamedMetadata("nvvm.annotations")\<close> (\<open>None\<close> for a null pointer, otherwise
  the operands of the named node); \<open>getStackAlignment ir F Index\<close> is
  \<^verbatim>\<open>F.getAttributes().getAttributes(Index).getStackAlignment()\<close>. The type \<open>'al\<close>
  stands for \<^verbatim>\<open>llvm::Align\<close>, which this file only passes around.
\<close>

record 'al ir =
  getParent :: "gv_ptr \<Rightarrow> module_ptr"
  getNamedMetadata :: "module_ptr \<Rightarrow> MDNode list option"
  getCallingConv :: "gv_ptr \<Rightarrow> CallingConv"
  getStackAlignment :: "gv_ptr \<Rightarrow> unsigned \<Rightarrow> 'al option"

text \<open>
  A call instruction, as far as \<^verbatim>\<open>getAlign(const CallInst &, unsigned)\<close> reads it:
  its attribute list and its \<^verbatim>\<open>callalign\<close> metadata node (\<open>None\<close> when absent).
\<close>

record 'al CallInst =
  callStackAlignment :: "unsigned \<Rightarrow> 'al option"
  callalign :: "MDNode option"

text \<open>
  A \<^verbatim>\<open>Value\<close>: a global value, a function argument (with its parent function and its
  argument number), or something else.
\<close>

datatype Value =
    GlobalValue gv_ptr
  | Argument gv_ptr unsigned
  | OtherValue

subsection \<open>\<^verbatim>\<open>std::map\<close> operations\<close>

text \<open>\<^verbatim>\<open>m[k]\<close> used as an lvalue or rvalue: a missing key is inserted with the default value.\<close>

definition subscript :: "'k \<Rightarrow> 'v \<Rightarrow> ('k \<times> 'v) list \<Rightarrow> ('k \<times> 'v) list" where
  "subscript k dflt m = (case map_of m k of None \<Rightarrow> AList.update k dflt m | Some _ \<Rightarrow> m)"

text \<open>The value \<^verbatim>\<open>m[k]\<close> refers to (after the insertion above).\<close>

definition at :: "('k \<times> 'v) list \<Rightarrow> 'k \<Rightarrow> 'v \<Rightarrow> 'v" where
  "at m k dflt = (case map_of m k of None \<Rightarrow> dflt | Some v \<Rightarrow> v)"

subsection \<open>\<^verbatim>\<open>clearAnnotationCache\<close>\<close>

definition clearAnnotationCache :: "module_ptr \<Rightarrow> AnnotationCache \<Rightarrow> AnnotationCache" where
  "clearAnnotationCache Mod AC = AList.delete Mod AC"

subsection \<open>\<^verbatim>\<open>cacheAnnotationFromMD(const MDNode *, key_val_pair_t &)\<close>\<close>

text \<open>
  The loop over the property-value pairs, from index \<open>i\<close>. Reading an operand past
  the end is \<open>Operand_out_of_range\<close> (the bounds assertion of \<^verbatim>\<open>getOperand\<close>).
  \<^verbatim>\<open>dyn_cast\<close> and \<^verbatim>\<open>mdconst::dyn_extract\<close> do not accept a null operand
  (\<open>Cast_of_null\<close>) and return null on an operand of another kind, after which the
  assertion that follows fails. The node itself is never a null pointer here, so the
  first assertion of the function has no counterpart.
\<close>

definition push_value :: "string \<Rightarrow> unsigned \<Rightarrow> key_val_pair_t \<Rightarrow> key_val_pair_t" where
  "push_value keyname v retval =
     (case map_of retval keyname of
        Some vs \<Rightarrow> AList.update keyname (vs @ [v]) retval
      | None \<Rightarrow> AList.update keyname [v] retval)"

function annotation_pairs_loop ::
  "MDNode \<Rightarrow> nat \<Rightarrow> key_val_pair_t \<Rightarrow> error + key_val_pair_t" where
  "annotation_pairs_loop md i retval =
     (if i = length md then Inr retval
      else if length md \<le> i then Inl Operand_out_of_range
      else (case md ! i of
              Null \<Rightarrow> Inl Cast_of_null
            | MDString keyname \<Rightarrow>
                if length md \<le> i + 1 then Inl Operand_out_of_range
                else (case md ! (i + 1) of
                        Null \<Rightarrow> Inl Cast_of_null
                      | ConstantInt Val \<Rightarrow>
                          annotation_pairs_loop md (i + 2)
                            (push_value keyname (ucast Val) retval)
                      | _ \<Rightarrow> Inl Value_operand_not_a_constant_int)
            | _ \<Rightarrow> Inl Annotation_property_not_a_string))"
  by pat_completeness auto
termination
  by (relation "measure (\<lambda>(md, i, retval). length md - i)") auto

declare annotation_pairs_loop.simps [simp del]

definition cacheAnnotationFromMD_node ::
  "MDNode \<Rightarrow> key_val_pair_t \<Rightarrow> error + key_val_pair_t" where
  "cacheAnnotationFromMD_node md retval =
     (if length md mod 2 \<noteq> 1 then Inl Invalid_number_of_operands
      else annotation_pairs_loop md 1 retval)"

subsection \<open>\<^verbatim>\<open>cacheAnnotationFromMD(const Module *, const GlobalValue *)\<close>\<close>

text \<open>
  \<^verbatim>\<open>mdconst::dyn_extract_or_null<GlobalValue>(elem->getOperand(0))\<close>: the subject of a
  record, null unless operand 0 is a global value.
\<close>

definition subject_entity :: "MDNode \<Rightarrow> error + gv_ptr option" where
  "subject_entity elem =
     (case elem of
        [] \<Rightarrow> Inl Operand_out_of_range
      | op0 # _ \<Rightarrow> (case op0 of GlobalValueMD g \<Rightarrow> Inr (Some g) | _ \<Rightarrow> Inr None))"

text \<open>The loop over the operands of the named metadata node, accumulating into \<open>tmp\<close>.\<close>

fun scan_annotations :: "MDNode list \<Rightarrow> gv_ptr \<Rightarrow> key_val_pair_t \<Rightarrow> error + key_val_pair_t" where
  "scan_annotations [] gv tmp = Inr tmp"
| "scan_annotations (elem # NMD) gv tmp =
     (case subject_entity elem of
        Inl e \<Rightarrow> Inl e
      | Inr None \<Rightarrow> scan_annotations NMD gv tmp
      | Inr (Some entity) \<Rightarrow>
          if entity \<noteq> gv then scan_annotations NMD gv tmp
          else (case cacheAnnotationFromMD_node elem tmp of
                  Inl e \<Rightarrow> Inl e
                | Inr tmp' \<Rightarrow> scan_annotations NMD gv tmp'))"

definition cacheAnnotationFromMD ::
  "('al, 'z) ir_scheme \<Rightarrow> module_ptr \<Rightarrow> gv_ptr \<Rightarrow> AnnotationCache \<Rightarrow> error + AnnotationCache" where
  "cacheAnnotationFromMD ir m gv AC =
     (case getNamedMetadata ir m of
        None \<Rightarrow> Inr AC
      | Some NMD \<Rightarrow>
          (case scan_annotations NMD gv [] of
             Inl e \<Rightarrow> Inl e
           | Inr tmp \<Rightarrow>
               if tmp = [] then Inr AC
               else (case map_of AC m of
                       Some annots \<Rightarrow> Inr (AList.update m (AList.update gv tmp annots) AC)
                     | None \<Rightarrow> Inr (AList.update m [(gv, tmp)] AC))))"

subsection \<open>\<^verbatim>\<open>findOneNVVMAnnotation\<close> and \<^verbatim>\<open>findAllNVVMAnnotation\<close>\<close>

text \<open>
  The two tests that decide whether the module's annotations are scanned; both lookup
  functions start with them.
\<close>

definition populate_on_miss ::
  "('al, 'z) ir_scheme \<Rightarrow> module_ptr \<Rightarrow> gv_ptr \<Rightarrow> AnnotationCache \<Rightarrow> error + AnnotationCache" where
  "populate_on_miss ir m gv AC =
     (case map_of AC m of
        None \<Rightarrow> cacheAnnotationFromMD ir m gv AC
      | Some annots \<Rightarrow>
          (case map_of annots gv of
             None \<Rightarrow> cacheAnnotationFromMD ir m gv AC
           | Some _ \<Rightarrow> Inr AC))"

text \<open>
  \<^verbatim>\<open>AC.Cache[m][gv]\<close> in the test that follows: both subscripts insert an empty map
  where the key is missing. The later subscripts of the same statement and of the
  \<^verbatim>\<open>retval = ...\<close> assignment find every key present. Element 0 of an empty vector
  would be undefined behaviour; it is written as \<open>Vector_index_out_of_range\<close> and is
  never reached, since no vector in the cache is empty.
\<close>

definition subscript_m_gv :: "module_ptr \<Rightarrow> gv_ptr \<Rightarrow> AnnotationCache \<Rightarrow> AnnotationCache" where
  "subscript_m_gv m gv AC =
     (let AC1 = subscript m [] AC
      in AList.update m (subscript gv [] (at AC1 m [])) AC1)"

definition findAllNVVMAnnotation ::
  "('al, 'z) ir_scheme \<Rightarrow> gv_ptr \<Rightarrow> string \<Rightarrow> AnnotationCache
     \<Rightarrow> error + (unsigned list option \<times> AnnotationCache)" where
  "findAllNVVMAnnotation ir gv prop AC =
     (let m = getParent ir gv in
      case populate_on_miss ir m gv AC of
        Inl e \<Rightarrow> Inl e
      | Inr AC1 \<Rightarrow>
          (let AC2 = subscript_m_gv m gv AC1 in
           case map_of (at (at AC2 m []) gv []) prop of
             None \<Rightarrow> Inr (None, AC2)
           | Some vs \<Rightarrow> Inr (Some vs, AC2)))"

definition findOneNVVMAnnotation ::
  "('al, 'z) ir_scheme \<Rightarrow> gv_ptr \<Rightarrow> string \<Rightarrow> AnnotationCache
     \<Rightarrow> error + (unsigned option \<times> AnnotationCache)" where
  "findOneNVVMAnnotation ir gv prop AC =
     (let m = getParent ir gv in
      case populate_on_miss ir m gv AC of
        Inl e \<Rightarrow> Inl e
      | Inr AC1 \<Rightarrow>
          (let AC2 = subscript_m_gv m gv AC1 in
           case map_of (at (at AC2 m []) gv []) prop of
             None \<Rightarrow> Inr (None, AC2)
           | Some vs \<Rightarrow>
               (case vs of
                  [] \<Rightarrow> Inl Vector_index_out_of_range
                | v # _ \<Rightarrow> Inr (Some v, AC2))))"

subsection \<open>Boolean predicates\<close>

text \<open>
  Each predicate takes the cache and returns it as the lookup left it. A failing
  \<^verbatim>\<open>assert(annot == 1)\<close> is \<open>Unexpected_annotation\<close>; \<^verbatim>\<open>is_contained\<close> is list
  membership.
\<close>

definition isTexture ::
  "('al, 'z) ir_scheme \<Rightarrow> Value \<Rightarrow> AnnotationCache \<Rightarrow> error + (bool \<times> AnnotationCache)" where
  "isTexture ir val AC =
     (case val of
        GlobalValue gv \<Rightarrow>
          (case findOneNVVMAnnotation ir gv ''texture'' AC of
             Inl e \<Rightarrow> Inl e
           | Inr (None, AC') \<Rightarrow> Inr (False, AC')
           | Inr (Some annot, AC') \<Rightarrow>
               if annot = 1 then Inr (True, AC') else Inl Unexpected_annotation)
      | _ \<Rightarrow> Inr (False, AC))"

definition isSurface ::
  "('al, 'z) ir_scheme \<Rightarrow> Value \<Rightarrow> AnnotationCache \<Rightarrow> error + (bool \<times> AnnotationCache)" where
  "isSurface ir val AC =
     (case val of
        GlobalValue gv \<Rightarrow>
          (case findOneNVVMAnnotation ir gv ''surface'' AC of
             Inl e \<Rightarrow> Inl e
           | Inr (None, AC') \<Rightarrow> Inr (False, AC')
           | Inr (Some annot, AC') \<Rightarrow>
               if annot = 1 then Inr (True, AC') else Inl Unexpected_annotation)
      | _ \<Rightarrow> Inr (False, AC))"

text \<open>
  A global value without the annotation falls through to the test for an argument,
  which it is not.
\<close>

definition isSampler ::
  "('al, 'z) ir_scheme \<Rightarrow> Value \<Rightarrow> AnnotationCache \<Rightarrow> error + (bool \<times> AnnotationCache)" where
  "isSampler ir val AC =
     (case val of
        GlobalValue gv \<Rightarrow>
          (case findOneNVVMAnnotation ir gv ''sampler'' AC of
             Inl e \<Rightarrow> Inl e
           | Inr (None, AC') \<Rightarrow> Inr (False, AC')
           | Inr (Some annot, AC') \<Rightarrow>
               if annot = 1 then Inr (True, AC') else Inl Unexpected_annotation)
      | Argument func argNo \<Rightarrow>
          (case findAllNVVMAnnotation ir func ''sampler'' AC of
             Inl e \<Rightarrow> Inl e
           | Inr (None, AC') \<Rightarrow> Inr (False, AC')
           | Inr (Some annot, AC') \<Rightarrow> Inr (argNo \<in> set annot, AC'))
      | OtherValue \<Rightarrow> Inr (False, AC))"

definition isImageReadOnly ::
  "('al, 'z) ir_scheme \<Rightarrow> Value \<Rightarrow> AnnotationCache \<Rightarrow> error + (bool \<times> AnnotationCache)" where
  "isImageReadOnly ir val AC =
     (case val of
        Argument func argNo \<Rightarrow>
          (case findAllNVVMAnnotation ir func ''rdoimage'' AC of
             Inl e \<Rightarrow> Inl e
           | Inr (None, AC') \<Rightarrow> Inr (False, AC')
           | Inr (Some annot, AC') \<Rightarrow> Inr (argNo \<in> set annot, AC'))
      | _ \<Rightarrow> Inr (False, AC))"

definition isImageWriteOnly ::
  "('al, 'z) ir_scheme \<Rightarrow> Value \<Rightarrow> AnnotationCache \<Rightarrow> error + (bool \<times> AnnotationCache)" where
  "isImageWriteOnly ir val AC =
     (case val of
        Argument func argNo \<Rightarrow>
          (case findAllNVVMAnnotation ir func ''wroimage'' AC of
             Inl e \<Rightarrow> Inl e
           | Inr (None, AC') \<Rightarrow> Inr (False, AC')
           | Inr (Some annot, AC') \<Rightarrow> Inr (argNo \<in> set annot, AC'))
      | _ \<Rightarrow> Inr (False, AC))"

definition isImageReadWrite ::
  "('al, 'z) ir_scheme \<Rightarrow> Value \<Rightarrow> AnnotationCache \<Rightarrow> error + (bool \<times> AnnotationCache)" where
  "isImageReadWrite ir val AC =
     (case val of
        Argument func argNo \<Rightarrow>
          (case findAllNVVMAnnotation ir func ''rdwrimage'' AC of
             Inl e \<Rightarrow> Inl e
           | Inr (None, AC') \<Rightarrow> Inr (False, AC')
           | Inr (Some annot, AC') \<Rightarrow> Inr (argNo \<in> set annot, AC'))
      | _ \<Rightarrow> Inr (False, AC))"

definition isManaged ::
  "('al, 'z) ir_scheme \<Rightarrow> Value \<Rightarrow> AnnotationCache \<Rightarrow> error + (bool \<times> AnnotationCache)" where
  "isManaged ir val AC =
     (case val of
        GlobalValue gv \<Rightarrow>
          (case findOneNVVMAnnotation ir gv ''managed'' AC of
             Inl e \<Rightarrow> Inl e
           | Inr (None, AC') \<Rightarrow> Inr (False, AC')
           | Inr (Some annot, AC') \<Rightarrow>
               if annot = 1 then Inr (True, AC') else Inl Unexpected_annotation)
      | _ \<Rightarrow> Inr (False, AC))"

subsection \<open>\<^verbatim>\<open>isKernelFunction\<close>\<close>

definition isKernelFunction ::
  "('al, 'z) ir_scheme \<Rightarrow> gv_ptr \<Rightarrow> AnnotationCache \<Rightarrow> error + (bool \<times> AnnotationCache)" where
  "isKernelFunction ir F AC =
     (case findOneNVVMAnnotation ir F ''kernel'' AC of
        Inl e \<Rightarrow> Inl e
      | Inr (None, AC') \<Rightarrow> Inr (getCallingConv ir F = PTX_Kernel, AC')
      | Inr (Some x, AC') \<Rightarrow> Inr (x = 1, AC'))"

subsection \<open>\<^verbatim>\<open>getAlign\<close>\<close>

text \<open>
  The constructor \<^verbatim>\<open>Align(uint64_t)\<close> lives outside this file and is the parameter
  \<open>mkAlign\<close>; it may fail on its argument.
\<close>

text \<open>The loop \<^verbatim>\<open>for (unsigned V : Vs) if ((V >> 16) == Index) return Align(V & 0xFFFF);\<close>.\<close>

fun align_loop ::
  "(64 word \<Rightarrow> error + 'al) \<Rightarrow> unsigned list \<Rightarrow> unsigned \<Rightarrow> error + 'al option" where
  "align_loop mkAlign [] Index = Inr None"
| "align_loop mkAlign (V # Vs) Index =
     (if drop_bit 16 V = Index
      then (case mkAlign (ucast (V AND 0xFFFF)) of Inl e \<Rightarrow> Inl e | Inr a \<Rightarrow> Inr (Some a))
      else align_loop mkAlign Vs Index)"

definition getAlign ::
  "(64 word \<Rightarrow> error + 'al) \<Rightarrow> ('al, 'z) ir_scheme \<Rightarrow> gv_ptr \<Rightarrow> unsigned \<Rightarrow> AnnotationCache
     \<Rightarrow> error + ('al option \<times> AnnotationCache)" where
  "getAlign mkAlign ir F Index AC =
     (case getStackAlignment ir F Index of
        Some StackAlign \<Rightarrow> Inr (Some StackAlign, AC)
      | None \<Rightarrow>
          (case findAllNVVMAnnotation ir F ''align'' AC of
             Inl e \<Rightarrow> Inl e
           | Inr (None, AC') \<Rightarrow> Inr (None, AC')
           | Inr (Some Vs, AC') \<Rightarrow>
               (case align_loop mkAlign Vs Index of
                  Inl e \<Rightarrow> Inl e
                | Inr r \<Rightarrow> Inr (r, AC'))))"

text \<open>
  The loop over the operands of the \<^verbatim>\<open>callalign\<close> node. \<^verbatim>\<open>mdconst::dyn_extract\<close>,
  unlike \<^verbatim>\<open>dyn_extract_or_null\<close>, does not accept a null operand; an operand of another
  kind is skipped.
\<close>

fun callalign_loop ::
  "(64 word \<Rightarrow> error + 'al) \<Rightarrow> MDNode \<Rightarrow> unsigned \<Rightarrow> error + 'al option" where
  "callalign_loop mkAlign [] Index = Inr None"
| "callalign_loop mkAlign (opnd # rest) Index =
     (case opnd of
        Null \<Rightarrow> Inl Cast_of_null
      | ConstantInt CI \<Rightarrow>
          (let V = (ucast CI :: unsigned) in
           if drop_bit 16 V = Index
           then (case mkAlign (ucast (V AND 0xFFFF)) of Inl e \<Rightarrow> Inl e | Inr a \<Rightarrow> Inr (Some a))
           else if drop_bit 16 V > Index then Inr None
           else callalign_loop mkAlign rest Index)
      | _ \<Rightarrow> callalign_loop mkAlign rest Index)"

definition getAlign_call ::
  "(64 word \<Rightarrow> error + 'al) \<Rightarrow> ('al, 'z) CallInst_scheme \<Rightarrow> unsigned \<Rightarrow> error + 'al option" where
  "getAlign_call mkAlign I Index =
     (case callStackAlignment I Index of
        Some StackAlign \<Rightarrow> Inr (Some StackAlign)
      | None \<Rightarrow>
          (case callalign I of
             Some alignNode \<Rightarrow> callalign_loop mkAlign alignNode Index
           | None \<Rightarrow> Inr None))"

section \<open>Specification-level notions\<close>

subsection \<open>What the cache holds for an entity\<close>

text \<open>The Property Map stored for entity \<open>gv\<close> of module \<open>m\<close>, if any.\<close>

definition cached :: "AnnotationCache \<Rightarrow> module_ptr \<Rightarrow> gv_ptr \<Rightarrow> key_val_pair_t option" where
  "cached AC m gv = (case map_of AC m of None \<Rightarrow> None | Some annots \<Rightarrow> map_of annots gv)"

subsection \<open>Well-formed annotation records\<close>

fun is_MDString :: "metadata \<Rightarrow> bool" where
  "is_MDString (MDString _) = True"
| "is_MDString _ = False"

fun is_ConstantInt :: "metadata \<Rightarrow> bool" where
  "is_ConstantInt (ConstantInt _) = True"
| "is_ConstantInt _ = False"

fun getString :: "metadata \<Rightarrow> string" where
  "getString (MDString s) = s"
| "getString _ = []"

fun getZExtValue :: "metadata \<Rightarrow> 64 word" where
  "getZExtValue (ConstantInt v) = v"
| "getZExtValue _ = 0"

text \<open>
  Position \<open>i \<ge> 1\<close> of a record holds the right kind of element: a metadata string at
  the name positions 1, 3, 5, ..., a constant integer at the value positions 2, 4, 6, ...
\<close>

definition position_ok :: "MDNode \<Rightarrow> nat \<Rightarrow> bool" where
  "position_ok md i = (if odd i then is_MDString (md ! i) else is_ConstantInt (md ! i))"

definition well_formed_record :: "MDNode \<Rightarrow> bool" where
  "well_formed_record md \<longleftrightarrow>
     odd (length md) \<and> (\<forall>i \<in> {1..<length md}. position_ok md i)"

text \<open>
  The (property name, value) pairs of a record in the order they are written; the value
  is the integer as it is stored, truncated to \<^verbatim>\<open>unsigned\<close>.
\<close>

definition pair_at :: "MDNode \<Rightarrow> nat \<Rightarrow> string \<times> unsigned" where
  "pair_at md i = (getString (md ! i), ucast (getZExtValue (md ! (i + 1))))"

definition record_pairs :: "MDNode \<Rightarrow> (string \<times> unsigned) list" where
  "record_pairs md = map (pair_at md) (filter odd [1..<length md])"

text \<open>Appending the value of each pair, in order, to the sequence of its property name.\<close>

definition push_all :: "(string \<times> unsigned) list \<Rightarrow> key_val_pair_t \<Rightarrow> key_val_pair_t" where
  "push_all ps retval = fold (\<lambda>(k, v). push_value k v) ps retval"

subsection \<open>What a module's annotation list says about an entity\<close>

text \<open>The records of the module's named annotation list (none when the list is absent).\<close>

definition module_annotations :: "('al, 'z) ir_scheme \<Rightarrow> module_ptr \<Rightarrow> MDNode list" where
  "module_annotations ir m = (case getNamedMetadata ir m of None \<Rightarrow> [] | Some NMD \<Rightarrow> NMD)"

text \<open>The values one record gives for a property name, in the order written.\<close>

definition record_values :: "MDNode \<Rightarrow> string \<Rightarrow> unsigned list" where
  "record_values md prop = map snd (filter (\<lambda>p. fst p = prop) (record_pairs md))"

text \<open>
  The values recorded for property \<open>prop\<close> of entity \<open>gv\<close>: those of the records whose
  subject is \<open>gv\<close>, in record-encounter order.
\<close>

definition annotation_values :: "MDNode list \<Rightarrow> gv_ptr \<Rightarrow> string \<Rightarrow> unsigned list" where
  "annotation_values NMD gv prop =
     concat (map (\<lambda>md. record_values md prop)
               (filter (\<lambda>md. subject_entity md = Inr (Some gv)) NMD))"

text \<open>
  The annotation list is well-formed for \<open>gv\<close>: every record has a subject operand and
  every record about \<open>gv\<close> is well-formed.
\<close>

definition well_formed_annotations :: "MDNode list \<Rightarrow> gv_ptr \<Rightarrow> bool" where
  "well_formed_annotations NMD gv \<longleftrightarrow>
     (\<forall>md \<in> set NMD. md \<noteq> [] \<and> (subject_entity md = Inr (Some gv) \<longrightarrow> well_formed_record md))"

text \<open>
  The cache agrees with the program: whatever it holds for an entity is what a scan of
  the module's annotation list yields for that entity now. This holds of the empty cache
  and is kept by the lookups and by \<^verbatim>\<open>clearAnnotationCache\<close> as long as the metadata
  does not change; after a change the caller has to call \<^verbatim>\<open>clearAnnotationCache\<close>.
\<close>

definition cache_consistent :: "('al, 'z) ir_scheme \<Rightarrow> AnnotationCache \<Rightarrow> bool" where
  "cache_consistent ir AC \<longleftrightarrow>
     (\<forall>m gv pm. cached AC m gv = Some pm \<longrightarrow>
        scan_annotations (module_annotations ir m) gv [] = Inr pm)"

subsection \<open>What the boolean predicates do with an annotation\<close>

type_synonym 'al predicate =
  "'al ir \<Rightarrow> Value \<Rightarrow> AnnotationCache \<Rightarrow> error + (bool \<times> AnnotationCache)"

text \<open>
  Predicate \<open>P\<close> treats \<open>name\<close> as a flag of the global value \<open>gv\<close>: false when nothing is
  recorded, true when the first recorded value is 1, and a failed assertion otherwise.
\<close>

definition asserts_flag ::
  "'al predicate \<Rightarrow> string \<Rightarrow> 'al ir \<Rightarrow> gv_ptr \<Rightarrow> AnnotationCache \<Rightarrow> bool" where
  "asserts_flag P name ir gv AC \<longleftrightarrow>
     (case annotation_values (module_annotations ir (getParent ir gv)) gv name of
        [] \<Rightarrow> (\<exists>AC'. P ir (GlobalValue gv) AC = Inr (False, AC'))
      | v # vs \<Rightarrow>
          if v = 1 then (\<exists>AC'. P ir (GlobalValue gv) AC = Inr (True, AC'))
          else P ir (GlobalValue gv) AC = Inl Unexpected_annotation)"

text \<open>
  Predicate \<open>P\<close> treats the values recorded for \<open>name\<close> on function \<open>func\<close> as a list of
  argument positions: it never fails, and is true exactly when the position of the
  argument is among them.
\<close>

definition tests_position ::
  "'al predicate \<Rightarrow> string \<Rightarrow> 'al ir \<Rightarrow> gv_ptr \<Rightarrow> unsigned \<Rightarrow> AnnotationCache \<Rightarrow> bool" where
  "tests_position P name ir func argNo AC \<longleftrightarrow>
     (\<exists>AC'. P ir (Argument func argNo) AC =
        Inr (argNo \<in> set (annotation_values (module_annotations ir (getParent ir func)) func name),
             AC'))"

subsection \<open>Changing a module's annotation list\<close>

definition with_annotations ::
  "('al, 'z) ir_scheme \<Rightarrow> module_ptr \<Rightarrow> MDNode list \<Rightarrow> ('al, 'z) ir_scheme" where
  "with_annotations ir m NMD = ir\<lparr>getNamedMetadata := (getNamedMetadata ir)(m := Some NMD)\<rparr>"

section \<open>Example programs\<close>

text \<open>
  A program with one module, at address 0, that holds every global value; alignments
  are plain numbers.
\<close>

definition single_module ::
  "MDNode list option \<Rightarrow> CallingConv \<Rightarrow> (unsigned \<Rightarrow> nat option) \<Rightarrow> nat ir" where
  "single_module NMD cc sa =
     \<lparr> getParent = (\<lambda>_. 0), getNamedMetadata = (\<lambda>_. NMD),
       getCallingConv = (\<lambda>_. cc), getStackAlignment = (\<lambda>_. sa) \<rparr>"

definition no_stack_alignment :: "unsigned \<Rightarrow> nat option" where
  "no_stack_alignment Index = None"

definition stack_alignment_16_at_1 :: "unsigned \<Rightarrow> nat option" where
  "stack_alignment_16_at_1 Index = (if Index = 1 then Some 16 else None)"

definition align_value :: "64 word \<Rightarrow> error + nat" where
  "align_value v = Inr (unat v)"

definition maxntid_records :: "MDNode list" where
  "maxntid_records =
     [[GlobalValueMD 7, MDString ''maxntidx'', ConstantInt 4],
      [GlobalValueMD 7, MDString ''maxntidx'', ConstantInt 8]]"

definition not_kernel_records :: "MDNode list" where
  "not_kernel_records = [[GlobalValueMD 7, MDString ''kernel'', ConstantInt 0]]"

definition dangling_records :: "MDNode list" where
  "dangling_records =
     [[GlobalValueMD 7, MDString ''kernel'', ConstantInt 1],
      [Null, MDString ''kernel''],
      [GlobalValueMD 8, ConstantInt 3, OtherMetadata],
      [GlobalValueMD 7, MDString ''reqntidx'', ConstantInt 32]]"

definition malformed_records :: "MDNode list" where
  "malformed_records = [[GlobalValueMD 7, MDString ''texture'']]"

definition texture_records :: "MDNode list" where
  "texture_records =
     [[GlobalValueMD 7, MDString ''texture'', ConstantInt 1],
      [GlobalValueMD 8, MDString ''surface'', ConstantInt 2]]"

definition rdoimage_0 :: "MDNode list" where
  "rdoimage_0 = [[GlobalValueMD 7, MDString ''rdoimage'', ConstantInt 0]]"

definition rdoimage_1 :: "MDNode list" where
  "rdoimage_1 = [[GlobalValueMD 7, MDString ''rdoimage'', ConstantInt 1]]"

text \<open>Packed alignments: 65544 is (1 << 16) | 8, 65540 is (1 << 16) | 4, 131080 is (2 << 16) | 8.\<close>

definition legacy_align_8_at_1 :: "MDNode list" where
  "legacy_align_8_at_1 = [[GlobalValueMD 7, MDString ''align'', ConstantInt 65544]]"

definition unsorted_align :: "MDNode list" where
  "unsorted_align =
     [[GlobalValueMD 7, MDString ''align'', ConstantInt 131080,
       MDString ''align'', ConstantInt 65540]]"

definition unsorted_call :: "nat CallInst" where
  "unsorted_call =
     \<lparr> callStackAlignment = no_stack_alignment,
       callalign = Some [ConstantInt 131080, ConstantInt 65540] \<rparr>"

definition sorted_call :: "nat CallInst" where
  "sorted_call =
     \<lparr> callStackAlignment = no_stack_alignment,
       callalign = Some [ConstantInt 65540, ConstantInt 131080] \<rparr>"

definition aligned_call :: "nat CallInst" where
  "aligned_call =
     \<lparr> callStackAlignment = stack_alignment_16_at_1,
       callalign = Some [ConstantInt 65544] \<rparr>"

definition plain_call :: "nat CallInst" where
  "plain_call = \<lparr> callStackAlignment = no_stack_alignment, callalign = None \<rparr>"

text \<open>
  Two modules, at addresses 1 and 2; global value 9 lives in module 2, every other one
  in module 1, whose annotation list now says that 7 is not a kernel. The cache still
  holds what was read from an earlier annotation list.
\<close>

definition two_modules :: "nat ir" where
  "two_modules =
     \<lparr> getParent = (\<lambda>gv. if gv = 9 then 2 else 1),
       getNamedMetadata = (\<lambda>m. if m = 1 then Some not_kernel_records else None),
       getCallingConv = (\<lambda>_. C), getStackAlignment = (\<lambda>_. no_stack_alignment) \<rparr>"

definition stale_cache :: AnnotationCache where
  "stale_cache = [(1, [(7, [(''kernel'', [1])])]), (2, [(9, [(''texture'', [1])])])]"

section \<open>Facts about the \<^verbatim>\<open>std::map\<close> operations\<close>

lemma map_of_subscript: "map_of (subscript k d m) = (map_of m)(k \<mapsto> at m k d)"
  by (auto simp: subscript_def at_def update_conv' split: option.splits)

lemma at_subscript: "at (subscript k d m) k d' = at m k d"
  by (simp add: at_def map_of_subscript)

lemma map_of_subscript_m_gv:
  "map_of (subscript_m_gv m gv AC) = (map_of AC)(m \<mapsto> subscript gv [] (at AC m []))"
  by (simp add: subscript_m_gv_def Let_def update_conv' map_of_subscript at_subscript)

lemma at_at_cached:
  "at (at AC m []) gv [] = (case cached AC m gv of None \<Rightarrow> [] | Some pm \<Rightarrow> pm)"
  by (simp add: at_def cached_def split: option.splits)

lemma cached_subscript_m_gv:
  "cached (subscript_m_gv m gv AC) m' gv' =
     (if m' = m \<and> gv' = gv then Some (case cached AC m gv of None \<Rightarrow> [] | Some pm \<Rightarrow> pm)
      else cached AC m' gv')"
  by (auto simp: cached_def map_of_subscript_m_gv map_of_subscript at_def split: option.splits)

lemma subscript_m_gv_hit: "cached AC m gv = Some pm \<Longrightarrow> subscript_m_gv m gv AC = AC"
  by (auto simp: cached_def subscript_m_gv_def subscript_def at_def Let_def update_triv
           split: option.splits)

lemma map_of_push_value: "map_of (push_value k v r) = (map_of r)(k \<mapsto> at r k [] @ [v])"
  by (auto simp: push_value_def at_def update_conv' split: option.splits)

lemma map_of_push_all:
  "map_of (push_all ps r) prop =
     (let vs = map snd (filter (\<lambda>p. fst p = prop) ps)
      in if vs = [] then map_of r prop else Some (at r prop [] @ vs))"
proof (induction ps arbitrary: r)
  case Nil
  then show ?case by (simp add: push_all_def)
next
  case (Cons p ps)
  obtain k v where p: "p = (k, v)" by (cases p)
  have unfold: "push_all (p # ps) r = push_all ps (push_value k v r)"
    by (simp add: push_all_def p)
  show ?case
    unfolding unfold Cons.IH
    by (auto simp: p Let_def map_of_push_value at_def split: option.splits)
qed

section \<open>The Metadata Reader\<close>

lemma loop_done: "annotation_pairs_loop md (length md) retval = Inr retval"
  by (subst annotation_pairs_loop.simps) simp

lemma loop_step:
  "i + 1 < length md \<Longrightarrow>
   annotation_pairs_loop md i retval =
     (if \<not> is_MDString (md ! i)
      then Inl (if md ! i = Null then Cast_of_null else Annotation_property_not_a_string)
      else if \<not> is_ConstantInt (md ! (i + 1))
      then Inl (if md ! (i + 1) = Null then Cast_of_null else Value_operand_not_a_constant_int)
      else annotation_pairs_loop md (i + 2)
             (push_value (fst (pair_at md i)) (snd (pair_at md i)) retval))"
  by (subst annotation_pairs_loop.simps) (auto simp: pair_at_def split: metadata.splits)

lemma odd_gap: "odd i \<Longrightarrow> odd n \<Longrightarrow> i \<le> n \<Longrightarrow> i \<noteq> n \<Longrightarrow> i + 1 < (n::nat)"
  by (metis Suc_eq_plus1 Suc_lessI even_Suc le_neq_implies_less)

lemma loop_fails_iff:
  "odd i \<Longrightarrow> odd (length md) \<Longrightarrow> i \<le> length md \<Longrightarrow>
   (\<exists>e. annotation_pairs_loop md i retval = Inl e) \<longleftrightarrow>
   (\<exists>j. i \<le> j \<and> j < length md \<and> \<not> position_ok md j)"
proof (induction md i retval rule: annotation_pairs_loop.induct)
  case (1 md i retval)
  show ?case
  proof (cases "i = length md")
    case True
    then show ?thesis by (simp add: loop_done)
  next
    case False
    with "1.prems" have lt: "i + 1 < length md" by (intro odd_gap) simp_all
    show ?thesis
    proof (cases "is_MDString (md ! i) \<and> is_ConstantInt (md ! (i + 1))")
      case True
      then obtain keyname Val
        where kv: "md ! i = MDString keyname" "md ! (i + 1) = ConstantInt Val"
        by (metis is_MDString.elims(2) is_ConstantInt.elims(2))
      have IH: "(\<exists>e. annotation_pairs_loop md (i + 2)
                      (push_value keyname (ucast Val) retval) = Inl e) \<longleftrightarrow>
                (\<exists>j. i + 2 \<le> j \<and> j < length md \<and> \<not> position_ok md j)"
        using "1.IH"[OF False _ kv(1) _ kv(2)] lt "1.prems" by simp
      have "\<And>j. i \<le> j \<Longrightarrow> \<not> position_ok md j \<Longrightarrow> i + 2 \<le> j"
      proof -
        fix j assume j: "i \<le> j" "\<not> position_ok md j"
        have "j \<noteq> i" using j(2) kv "1.prems"(1) by (auto simp: position_ok_def)
        moreover have "j \<noteq> i + 1" using j(2) kv "1.prems"(1) by (auto simp: position_ok_def)
        ultimately show "i + 2 \<le> j" using j(1) by arith
      qed
      then have skip: "(\<exists>j. i \<le> j \<and> j < length md \<and> \<not> position_ok md j)
           \<longleftrightarrow> (\<exists>j. i + 2 \<le> j \<and> j < length md \<and> \<not> position_ok md j)"
        by (meson add_leD1)
      show ?thesis
        using IH skip kv by (simp add: loop_step[OF lt] pair_at_def)
    next
      case bad: False
      have "\<exists>j. i \<le> j \<and> j < length md \<and> \<not> position_ok md j"
      proof (cases "is_MDString (md ! i)")
        case True
        with bad have "\<not> position_ok md (i + 1)"
          using "1.prems"(1) by (simp add: position_ok_def)
        then show ?thesis using lt by (intro exI[of _ "i + 1"]) simp
      next
        case False
        then have "\<not> position_ok md i" using "1.prems"(1) by (simp add: position_ok_def)
        then show ?thesis using lt by (intro exI[of _ i]) simp
      qed
      then show ?thesis using bad by (auto simp: loop_step[OF lt])
    qed
  qed
qed

lemma loop_result:
  "odd i \<Longrightarrow> odd (length md) \<Longrightarrow> i \<le> length md \<Longrightarrow>
   \<forall>j. i \<le> j \<and> j < length md \<longrightarrow> position_ok md j \<Longrightarrow>
   annotation_pairs_loop md i retval =
     Inr (push_all (map (pair_at md) (filter odd [i..<length md])) retval)"
proof (induction md i retval rule: annotation_pairs_loop.induct)
  case (1 md i retval)
  show ?case
  proof (cases "i = length md")
    case True
    then show ?thesis by (simp add: loop_done push_all_def)
  next
    case False
    with "1.prems" have lt: "i + 1 < length md" by (intro odd_gap) simp_all
    have ok: "is_MDString (md ! i)" "is_ConstantInt (md ! (i + 1))"
      using "1.prems"(1,4) lt
      by (auto simp: position_ok_def dest: spec[of _ i] spec[of _ "i+1"])
    then obtain keyname Val
      where kv: "md ! i = MDString keyname" "md ! (i + 1) = ConstantInt Val"
      by (metis is_MDString.elims(2) is_ConstantInt.elims(2))
    have IH: "annotation_pairs_loop md (i + 2) (push_value keyname (ucast Val) retval) =
        Inr (push_all (map (pair_at md) (filter odd [i + 2..<length md]))
               (push_value keyname (ucast Val) retval))"
      using "1.IH"[OF False _ kv(1) _ kv(2)] lt "1.prems" by simp
    have upt: "[i..<length md] = i # (i + 1) # [i + 2..<length md]"
      using lt by (simp add: upt_conv_Cons)
    have hd: "pair_at md i = (keyname, ucast Val)"
      using kv by (simp add: pair_at_def)
    show ?thesis
      using IH ok "1.prems"(1)
      by (simp add: loop_step[OF lt] upt push_all_def hd)
  qed
qed

lemma reader_fails_iff:
  "(\<exists>e. cacheAnnotationFromMD_node md retval = Inl e) \<longleftrightarrow> \<not> well_formed_record md"
proof (cases "odd (length md)")
  case False
  then show ?thesis
    by (simp add: cacheAnnotationFromMD_node_def well_formed_record_def even_iff_mod_2_eq_zero)
next
  case True
  then have len: "1 \<le> length md" by (cases md) auto
  have "length md mod 2 = 1" using True by (simp add: odd_iff_mod_2_eq_one)
  then have "(\<exists>e. cacheAnnotationFromMD_node md retval = Inl e) \<longleftrightarrow>
             (\<exists>e. annotation_pairs_loop md 1 retval = Inl e)"
    by (simp add: cacheAnnotationFromMD_node_def)
  also have "\<dots> \<longleftrightarrow> (\<exists>j. 1 \<le> j \<and> j < length md \<and> \<not> position_ok md j)"
    using loop_fails_iff[of 1 md retval] True len by simp
  also have "\<dots> \<longleftrightarrow> \<not> well_formed_record md"
    using True by (auto simp: well_formed_record_def)
  finally show ?thesis .
qed

lemma reader_result:
  assumes "well_formed_record md"
  shows "cacheAnnotationFromMD_node md retval = Inr (push_all (record_pairs md) retval)"
proof -
  from assms have odd: "odd (length md)" and ok: "\<forall>i \<in> {1..<length md}. position_ok md i"
    by (simp_all add: well_formed_record_def)
  then have len: "1 \<le> length md" by (cases md) auto
  have "length md mod 2 = 1" using odd by (simp add: odd_iff_mod_2_eq_one)
  then have "cacheAnnotationFromMD_node md retval = annotation_pairs_loop md 1 retval"
    by (simp add: cacheAnnotationFromMD_node_def)
  also have "\<dots> = Inr (push_all (map (pair_at md) (filter odd [1..<length md])) retval)"
    using loop_result[of 1 md retval] odd len ok by simp
  finally show ?thesis by (simp add: record_pairs_def)
qed

section \<open>The scan of the annotation list\<close>

lemma scan_append:
  "scan_annotations (xs @ ys) gv tmp =
     (case scan_annotations xs gv tmp of Inl e \<Rightarrow> Inl e | Inr t \<Rightarrow> scan_annotations ys gv t)"
  by (induction xs arbitrary: tmp) (auto split: sum.splits option.splits)

lemma scan_skip:
  "subject_entity elem = Inr s \<Longrightarrow> s \<noteq> Some gv \<Longrightarrow>
   scan_annotations (elem # NMD) gv tmp = scan_annotations NMD gv tmp"
  by (cases s) auto

lemma reader_Inr_D:
  assumes "cacheAnnotationFromMD_node md retval = Inr r"
  shows "well_formed_record md \<and> r = push_all (record_pairs md) retval"
proof -
  have "\<not> (\<exists>e. cacheAnnotationFromMD_node md retval = Inl e)" using assms by simp
  then have wf: "well_formed_record md" by (simp add: reader_fails_iff)
  with assms reader_result[OF wf, of retval] show ?thesis by simp
qed

lemma annotation_values_Cons:
  "annotation_values (elem # NMD) gv prop =
     (if subject_entity elem = Inr (Some gv) then record_values elem prop else [])
       @ annotation_values NMD gv prop"
  by (simp add: annotation_values_def)

lemma scan_values:
  "scan_annotations NMD gv tmp = Inr pm \<Longrightarrow>
   map_of pm prop =
     (if annotation_values NMD gv prop = [] then map_of tmp prop
      else Some (at tmp prop [] @ annotation_values NMD gv prop))"
proof (induction NMD arbitrary: tmp)
  case Nil
  then show ?case by (simp add: annotation_values_def)
next
  case (Cons elem NMD)
  show ?case
  proof (cases "subject_entity elem = Inr (Some gv)")
    case True
    with Cons.prems obtain tmp' where
      rd: "cacheAnnotationFromMD_node elem tmp = Inr tmp'" and
      rest: "scan_annotations NMD gv tmp' = Inr pm"
      by (auto split: sum.splits)
    from reader_Inr_D[OF rd] have tmp': "tmp' = push_all (record_pairs elem) tmp" by simp
    have m: "map_of tmp' prop =
        (if record_values elem prop = [] then map_of tmp prop
         else Some (at tmp prop [] @ record_values elem prop))"
      by (simp add: tmp' map_of_push_all record_values_def Let_def)
    show ?thesis
      using Cons.IH[OF rest] m True
      by (auto simp: annotation_values_Cons at_def split: option.splits)
  next
    case False
    with Cons.prems have rest: "scan_annotations NMD gv tmp = Inr pm"
      by (auto split: sum.splits option.splits if_splits)
    show ?thesis
      using Cons.IH[OF rest] False by (simp add: annotation_values_Cons)
  qed
qed

lemma subject_entity_total: "elem \<noteq> [] \<Longrightarrow> \<exists>s. subject_entity elem = Inr s"
  by (cases elem) (auto simp: subject_entity_def split: metadata.splits)

lemma scan_ok:
  "well_formed_annotations NMD gv \<Longrightarrow> \<exists>pm. scan_annotations NMD gv tmp = Inr pm"
proof (induction NMD arbitrary: tmp)
  case Nil
  then show ?case by simp
next
  case (Cons elem NMD)
  from Cons.prems have ne: "elem \<noteq> []"
    and wf: "subject_entity elem = Inr (Some gv) \<longrightarrow> well_formed_record elem"
    and rest: "well_formed_annotations NMD gv"
    by (simp_all add: well_formed_annotations_def)
  from ne obtain s where s: "subject_entity elem = Inr s"
    using subject_entity_total by blast
  show ?case
  proof (cases "s = Some gv")
    case True
    with s wf have "well_formed_record elem" by simp
    then show ?thesis
      using s True Cons.IH[OF rest] by (simp add: reader_result)
  next
    case False
    then show ?thesis using scan_skip[OF s False] Cons.IH[OF rest] by simp
  qed
qed

lemma scan_lists_nonempty:
  assumes "scan_annotations NMD gv [] = Inr pm" "map_of pm prop = Some vs"
  shows "vs = annotation_values NMD gv prop \<and> vs \<noteq> []"
  using scan_values[OF assms(1), of "prop"] assms(2)
  by (auto simp: at_def split: if_splits)

section \<open>The cache and the lookups\<close>

lemma cached_update:
  "cached (AList.update m (AList.update gv tmp (at AC m [])) AC) m' gv' =
     (if m' = m \<and> gv' = gv then Some tmp else cached AC m' gv')"
  by (auto simp: cached_def update_conv' at_def split: option.splits)

lemma cacheAnnotationFromMD_eq:
  "cacheAnnotationFromMD ir m gv AC =
     (case scan_annotations (module_annotations ir m) gv [] of
        Inl e \<Rightarrow> Inl e
      | Inr tmp \<Rightarrow>
          if tmp = [] then Inr AC
          else Inr (AList.update m (AList.update gv tmp (at AC m [])) AC))"
  by (auto simp: cacheAnnotationFromMD_def module_annotations_def at_def
           split: option.splits sum.splits)

lemma populate_hit: "cached AC m gv = Some pm \<Longrightarrow> populate_on_miss ir m gv AC = Inr AC"
  by (auto simp: populate_on_miss_def cached_def split: option.splits)

lemma populate_miss:
  "cached AC m gv = None \<Longrightarrow> populate_on_miss ir m gv AC = cacheAnnotationFromMD ir m gv AC"
  by (auto simp: populate_on_miss_def cached_def split: option.splits)

lemma findOne_via_findAll:
  "findOneNVVMAnnotation ir gv prop AC =
     (case findAllNVVMAnnotation ir gv prop AC of
        Inl e \<Rightarrow> Inl e
      | Inr (None, AC') \<Rightarrow> Inr (None, AC')
      | Inr (Some [], AC') \<Rightarrow> Inl Vector_index_out_of_range
      | Inr (Some (v # _), AC') \<Rightarrow> Inr (Some v, AC'))"
  by (auto simp: findOneNVVMAnnotation_def findAllNVVMAnnotation_def Let_def
           split: sum.splits option.splits list.splits)

lemma findAll_hit:
  "cached AC (getParent ir gv) gv = Some pm \<Longrightarrow>
   findAllNVVMAnnotation ir gv prop AC = Inr (map_of pm prop, AC)"
  by (auto simp: findAllNVVMAnnotation_def Let_def populate_hit subscript_m_gv_hit at_at_cached
           split: option.splits)

lemma findAll_miss_error:
  "cached AC (getParent ir gv) gv = None \<Longrightarrow>
   scan_annotations (module_annotations ir (getParent ir gv)) gv [] = Inl e \<Longrightarrow>
   findAllNVVMAnnotation ir gv prop AC = Inl e"
  by (simp add: findAllNVVMAnnotation_def Let_def populate_miss cacheAnnotationFromMD_eq)

lemma findAll_miss:
  assumes miss: "cached AC (getParent ir gv) gv = None"
    and scan: "scan_annotations (module_annotations ir (getParent ir gv)) gv [] = Inr pm"
  shows "\<exists>AC'. findAllNVVMAnnotation ir gv prop AC = Inr (map_of pm prop, AC')
           \<and> (\<forall>m' gv'. cached AC' m' gv' =
                 (if m' = getParent ir gv \<and> gv' = gv then Some pm else cached AC m' gv'))"
proof -
  define m where "m = getParent ir gv"
  define AC1 where "AC1 = (if pm = [] then AC
                           else AList.update m (AList.update gv pm (at AC m [])) AC)"
  have pop: "populate_on_miss ir m gv AC = Inr AC1"
    using miss scan by (simp add: populate_miss cacheAnnotationFromMD_eq m_def AC1_def)
  have c1: "cached AC1 m gv = (if pm = [] then None else Some pm)"
    using miss by (simp add: AC1_def cached_update m_def)
  have c1': "\<And>m' gv'. \<not> (m' = m \<and> gv' = gv) \<Longrightarrow> cached AC1 m' gv' = cached AC m' gv'"
    by (auto simp: AC1_def cached_update)
  define AC2 where "AC2 = subscript_m_gv m gv AC1"
  have c2: "\<forall>m' gv'. cached AC2 m' gv' = (if m' = m \<and> gv' = gv then Some pm else cached AC m' gv')"
    using c1 c1' by (auto simp: AC2_def cached_subscript_m_gv)
  then have "cached AC2 m gv = Some pm" by simp
  then have rd: "at (at AC2 m []) gv [] = pm" by (simp add: at_at_cached)
  have "findAllNVVMAnnotation ir gv prop AC = Inr (map_of pm prop, AC2)"
    using pop rd
    by (auto simp: findAllNVVMAnnotation_def Let_def m_def[symmetric] AC2_def[symmetric]
             split: option.splits)
  with c2 show ?thesis unfolding m_def by blast
qed

lemma findAll_consistent:
  assumes cons: "cache_consistent ir AC"
    and scan: "scan_annotations (module_annotations ir (getParent ir gv)) gv [] = Inr pm"
  shows "\<exists>AC'. findAllNVVMAnnotation ir gv prop AC = Inr (map_of pm prop, AC')
           \<and> cache_consistent ir AC'"
proof (cases "cached AC (getParent ir gv) gv")
  case None
  from findAll_miss[OF None scan, of "prop"] obtain AC' where
    r: "findAllNVVMAnnotation ir gv prop AC = Inr (map_of pm prop, AC')" and
    c: "\<forall>m' gv'. cached AC' m' gv' =
          (if m' = getParent ir gv \<and> gv' = gv then Some pm else cached AC m' gv')"
    by blast
  have "cache_consistent ir AC'"
    unfolding cache_consistent_def
  proof (intro allI impI)
    fix m' gv' pm' assume h: "cached AC' m' gv' = Some pm'"
    show "scan_annotations (module_annotations ir m') gv' [] = Inr pm'"
    proof (cases "m' = getParent ir gv \<and> gv' = gv")
      case True
      with h c have "pm' = pm" by simp
      with True scan show ?thesis by simp
    next
      case False
      with h c have "cached AC m' gv' = Some pm'" by auto
      with cons show ?thesis by (simp add: cache_consistent_def)
    qed
  qed
  with r show ?thesis by blast
next
  case (Some pm')
  with cons scan have "pm' = pm" by (simp add: cache_consistent_def)
  with Some findAll_hit[of AC ir gv pm "prop"] cons show ?thesis by auto
qed

lemma findAll_values:
  assumes cons: "cache_consistent ir AC"
    and wf: "well_formed_annotations (module_annotations ir (getParent ir gv)) gv"
  shows "\<exists>AC'. findAllNVVMAnnotation ir gv prop AC =
            Inr (case annotation_values (module_annotations ir (getParent ir gv)) gv prop of
                   [] \<Rightarrow> None | v # vs \<Rightarrow> Some (v # vs), AC')
           \<and> cache_consistent ir AC'"
proof -
  from scan_ok[OF wf, of "[]"] obtain pm where
    scan: "scan_annotations (module_annotations ir (getParent ir gv)) gv [] = Inr pm" by blast
  have "map_of pm prop =
      (case annotation_values (module_annotations ir (getParent ir gv)) gv prop of
         [] \<Rightarrow> None | v # vs \<Rightarrow> Some (v # vs))"
    using scan_values[OF scan, of "prop"] by (simp add: at_def split: list.splits)
  with findAll_consistent[OF cons scan, of "prop"] show ?thesis by simp
qed

lemma findOne_values:
  assumes cons: "cache_consistent ir AC"
    and wf: "well_formed_annotations (module_annotations ir (getParent ir gv)) gv"
  shows "\<exists>AC'. findOneNVVMAnnotation ir gv prop AC =
            Inr (case annotation_values (module_annotations ir (getParent ir gv)) gv prop of
                   [] \<Rightarrow> None | v # vs \<Rightarrow> Some v, AC')
           \<and> cache_consistent ir AC'"
proof -
  from findAll_values[OF cons wf, of "prop"] obtain AC' where
    "findAllNVVMAnnotation ir gv prop AC =
            Inr (case annotation_values (module_annotations ir (getParent ir gv)) gv prop of
                   [] \<Rightarrow> None | v # vs \<Rightarrow> Some (v # vs), AC')"
    "cache_consistent ir AC'" by blast
  then show ?thesis
    by (auto simp: findOne_via_findAll split: list.splits)
qed

subsection \<open>The cache agrees with the program\<close>

lemma cache_consistent_empty: "cache_consistent ir []"
  by (simp add: cache_consistent_def cached_def)

lemma cached_clear:
  "cached (clearAnnotationCache m AC) m' gv = (if m' = m then None else cached AC m' gv)"
  by (simp add: cached_def clearAnnotationCache_def delete_conv')

lemma cache_consistent_clear:
  "cache_consistent ir AC \<Longrightarrow> cache_consistent ir (clearAnnotationCache m AC)"
  by (simp add: cache_consistent_def cached_clear split: if_splits)

lemma findAll_preserves_consistent:
  assumes cons: "cache_consistent ir AC"
    and ret: "findAllNVVMAnnotation ir gv name AC = Inr (r, AC')"
  shows "cache_consistent ir AC'"
proof (cases "scan_annotations (module_annotations ir (getParent ir gv)) gv []")
  case (Inl e)
  show ?thesis
  proof (cases "cached AC (getParent ir gv) gv")
    case None
    from findAll_miss_error[OF None Inl, of name] ret show ?thesis by simp
  next
    case (Some pm)
    with cons Inl show ?thesis by (simp add: cache_consistent_def)
  qed
next
  case (Inr pm)
  from findAll_consistent[OF cons Inr, of name] ret show ?thesis by auto
qed

lemma findOne_preserves_consistent:
  assumes cons: "cache_consistent ir AC"
    and ret: "findOneNVVMAnnotation ir gv name AC = Inr (r, AC')"
  shows "cache_consistent ir AC'"
proof -
  from ret obtain r' where "findAllNVVMAnnotation ir gv name AC = Inr (r', AC')"
    by (auto simp: findOne_via_findAll split: sum.splits option.splits list.splits)
  with cons show ?thesis by (rule findAll_preserves_consistent)
qed

section \<open>Claims about the Metadata Reader\<close>

lemma not_well_formed_record_iff: "\<not> well_formed_record md \<longleftrightarrow>
      (even (length md)
       \<or> (\<exists>i. odd i \<and> i < length md \<and> \<not> is_MDString (md ! i))
       \<or> (\<exists>i. even i \<and> 0 < i \<and> i < length md \<and> \<not> is_ConstantInt (md ! i)))"
proof (cases "odd (length md)")
  case False
  then show ?thesis by (simp add: well_formed_record_def)
next
  case True
  have "(\<exists>i\<in>{1..<length md}. \<not> position_ok md i) \<longleftrightarrow>
        ((\<exists>i. odd i \<and> i < length md \<and> \<not> is_MDString (md ! i))
       \<or> (\<exists>i. even i \<and> 0 < i \<and> i < length md \<and> \<not> is_ConstantInt (md ! i)))"
    (is "?L \<longleftrightarrow> ?R")
  proof
    assume ?L
    then obtain i where i: "1 \<le> i" "i < length md" "\<not> position_ok md i" by auto
    show ?R
    proof (cases "odd i")
      case True
      with i show ?thesis by (auto simp: position_ok_def)
    next
      case False
      with i have "even i \<and> 0 < i \<and> i < length md \<and> \<not> is_ConstantInt (md ! i)"
        by (simp add: position_ok_def)
      then show ?thesis by blast
    qed
  next
    assume ?R
    then show ?L
    proof
      assume "\<exists>i. odd i \<and> i < length md \<and> \<not> is_MDString (md ! i)"
      then obtain i where i: "odd i" "i < length md" "\<not> is_MDString (md ! i)" by blast
      then have "1 \<le> i" by (cases i) auto
      with i show ?L by (intro bexI[of _ i]) (simp_all add: position_ok_def)
    next
      assume "\<exists>i. even i \<and> 0 < i \<and> i < length md \<and> \<not> is_ConstantInt (md ! i)"
      then obtain i where i: "even i" "0 < i" "i < length md" "\<not> is_ConstantInt (md ! i)" by blast
      then show ?L by (intro bexI[of _ i]) (simp_all add: position_ok_def)
    qed
  qed
  then show ?thesis using True by (simp add: well_formed_record_def)
qed

text \<open>
  Claim C8. The Metadata Reader fails an assertion exactly when the number of elements
  is even, or some name position (1, 3, 5, ...) does not hold a metadata string, or some
  value position (2, 4, 6, ...) does not hold a constant integer. On a well-formed record
  no assertion fires and the result is the output map with the value of each pair
  appended, in order, to the sequence of its property name: the sequence of a property
  the record does not mention is unchanged, and the sequence of a property it mentions is
  the old one (empty if there was none) followed by the record's values for it.
\<close>

theorem C8_reader_assertions:
  "((\<exists>e. cacheAnnotationFromMD_node md retval = Inl e) \<longleftrightarrow>
      (even (length md)
       \<or> (\<exists>i. odd i \<and> i < length md \<and> \<not> is_MDString (md ! i))
       \<or> (\<exists>i. even i \<and> 0 < i \<and> i < length md \<and> \<not> is_ConstantInt (md ! i))))
   \<and> (well_formed_record md \<longrightarrow>
        cacheAnnotationFromMD_node md retval = Inr (push_all (record_pairs md) retval)
        \<and> (\<forall>prop. map_of (push_all (record_pairs md) retval) prop =
              (if record_values md prop = [] then map_of retval prop
               else Some (at retval prop [] @ record_values md prop))))"
proof -
  have fails: "(\<exists>e. cacheAnnotationFromMD_node md retval = Inl e) \<longleftrightarrow>
      (even (length md)
       \<or> (\<exists>i. odd i \<and> i < length md \<and> \<not> is_MDString (md ! i))
       \<or> (\<exists>i. even i \<and> 0 < i \<and> i < length md \<and> \<not> is_ConstantInt (md ! i)))"
    unfolding reader_fails_iff by (rule not_well_formed_record_iff)
  have vals: "\<forall>prop. map_of (push_all (record_pairs md) retval) prop =
              (if record_values md prop = [] then map_of retval prop
               else Some (at retval prop [] @ record_values md prop))"
    by (simp add: map_of_push_all record_values_def Let_def)
  show ?thesis
    using fails vals reader_result[of md retval] by blast
qed

theorem C8_reader_assertions_witness:
  "well_formed_record [GlobalValueMD 7, MDString ''kernel'', ConstantInt 1]
   \<and> cacheAnnotationFromMD_node [GlobalValueMD 7, MDString ''kernel'', ConstantInt 1] []
       = Inr [(''kernel'', [1])]
   \<and> (\<exists>e. cacheAnnotationFromMD_node [GlobalValueMD 7, MDString ''kernel''] [] = Inl e)"
proof -
  have wf: "well_formed_record [GlobalValueMD 7, MDString ''kernel'', ConstantInt 1]"
    by code_simp
  have pairs: "push_all (record_pairs [GlobalValueMD 7, MDString ''kernel'', ConstantInt 1]) []
                 = [(''kernel'', [1])]"
    by code_simp
  show ?thesis
    using C8_reader_assertions[of "[GlobalValueMD 7, MDString ''kernel'', ConstantInt 1]" "[]"]
          C8_reader_assertions[of "[GlobalValueMD 7, MDString ''kernel'']" "[]"]
          wf pairs
    by simp
qed

section \<open>Facts about the example programs\<close>

lemma single_module_simps [simp]:
  "module_annotations (single_module (Some NMD) cc sa) m = NMD"
  "module_annotations (single_module None cc sa) m = []"
  "getParent (single_module X cc sa) gv = 0"
  "getCallingConv (single_module X cc sa) gv = cc"
  "getStackAlignment (single_module X cc sa) gv = sa"
  by (simp_all add: module_annotations_def single_module_def)

lemma module_annotations_with [simp]:
  "module_annotations (with_annotations ir m NMD) m = NMD"
  by (simp add: module_annotations_def with_annotations_def)

section \<open>Claims about the cache\<close>

text \<open>
  Claim C1 (fails on the code). The claim says that an entity whose scan yields an
  empty Property Map gets no cache entry and is scanned again by every later lookup.
  \<^verbatim>\<open>cacheAnnotationFromMD\<close> indeed returns without storing, but the lookup then
  evaluates \<^verbatim>\<open>AC.Cache[m][gv]\<close>, and \<^verbatim>\<open>operator[]\<close> inserts the empty map. Below, on
  a module whose annotation list is empty, the first lookup for entity 7 leaves the
  entry \<open>7 \<mapsto> []\<close> behind; from that cache the population step returns at once, even
  against an annotation list on which a scan would fail an assertion.
\<close>

theorem C1_empty_property_map_is_cached:
  "findOneNVVMAnnotation (single_module (Some []) C no_stack_alignment) 7 ''texture'' []
     = Inr (None, [(0, [(7, [])])])
   \<and> cached [(0, [(7, [])])] 0 7 = Some []
   \<and> populate_on_miss (single_module (Some malformed_records) C no_stack_alignment) 0 7
         [(0, [(7, [])])]
       = Inr [(0, [(7, [])])]
   \<and> cacheAnnotationFromMD (single_module (Some malformed_records) C no_stack_alignment) 0 7
         [(0, [(7, [])])]
       = Inl Invalid_number_of_operands"
  by code_simp

text \<open>
  Claim C2. \<^verbatim>\<open>clearAnnotationCache(m)\<close> is a total operation after which the cache
  holds nothing for module \<open>m\<close> and exactly what it held before for every other module;
  it changes nothing when \<open>m\<close> had no entry. After it, a lookup for any entity of \<open>m\<close>
  takes the scanning branch, and its answer is the one the module's annotation list gives
  now, whatever the cache held before.
\<close>

theorem C2_invalidate:
  "(\<forall>gv. cached (clearAnnotationCache m AC) m gv = None)
   \<and> map_of (clearAnnotationCache m AC) m = None
   \<and> (\<forall>m'. m' \<noteq> m \<longrightarrow> map_of (clearAnnotationCache m AC) m' = map_of AC m')
   \<and> (map_of AC m = None \<longrightarrow> clearAnnotationCache m AC = AC)
   \<and> (\<forall>gv. populate_on_miss ir m gv (clearAnnotationCache m AC)
            = cacheAnnotationFromMD ir m gv (clearAnnotationCache m AC))
   \<and> (\<forall>gv name pm. getParent ir gv = m \<longrightarrow>
          scan_annotations (module_annotations ir m) gv [] = Inr pm \<longrightarrow>
          (\<exists>AC'. findAllNVVMAnnotation ir gv name (clearAnnotationCache m AC)
                   = Inr (map_of pm name, AC')))"
proof -
  have gone: "\<forall>gv. cached (clearAnnotationCache m AC) m gv = None"
    by (simp add: cached_clear)
  have entry: "map_of (clearAnnotationCache m AC) m = None"
    by (simp add: clearAnnotationCache_def delete_conv')
  have frame: "\<forall>m'. m' \<noteq> m \<longrightarrow> map_of (clearAnnotationCache m AC) m' = map_of AC m'"
    by (simp add: clearAnnotationCache_def)
  have noop: "map_of AC m = None \<longrightarrow> clearAnnotationCache m AC = AC"
    by (simp add: clearAnnotationCache_def map_of_eq_None_iff)
  have rescan: "\<forall>gv. populate_on_miss ir m gv (clearAnnotationCache m AC)
            = cacheAnnotationFromMD ir m gv (clearAnnotationCache m AC)"
    using gone by (simp add: populate_miss)
  have fresh: "\<forall>gv name pm. getParent ir gv = m \<longrightarrow>
          scan_annotations (module_annotations ir m) gv [] = Inr pm \<longrightarrow>
          (\<exists>AC'. findAllNVVMAnnotation ir gv name (clearAnnotationCache m AC)
                   = Inr (map_of pm name, AC'))"
  proof (intro allI impI)
    fix gv name pm
    assume p: "getParent ir gv = m"
      and s: "scan_annotations (module_annotations ir m) gv [] = Inr pm"
    have miss: "cached (clearAnnotationCache m AC) (getParent ir gv) gv = None"
      using gone p by simp
    from findAll_miss[OF miss, of pm name] s p
    show "\<exists>AC'. findAllNVVMAnnotation ir gv name (clearAnnotationCache m AC)
                   = Inr (map_of pm name, AC')"
      by auto
  qed
  show ?thesis using gone entry frame noop rescan fresh by blast
qed

theorem C2_invalidate_witness:
  "findAllNVVMAnnotation two_modules 7 ''kernel'' stale_cache = Inr (Some [1], stale_cache)
   \<and> (\<exists>AC'. findAllNVVMAnnotation two_modules 7 ''kernel'' (clearAnnotationCache 1 stale_cache)
              = Inr (Some [0], AC'))
   \<and> map_of (clearAnnotationCache 1 stale_cache) 2 = map_of stale_cache 2
   \<and> clearAnnotationCache 3 stale_cache = stale_cache"
proof -
  have p: "getParent two_modules 7 = 1" by (simp add: two_modules_def)
  have s: "scan_annotations (module_annotations two_modules 1) 7 [] = Inr [(''kernel'', [0])]"
    by code_simp
  have stale: "findAllNVVMAnnotation two_modules 7 ''kernel'' stale_cache
                 = Inr (Some [1], stale_cache)"
    by code_simp
  have n3: "map_of stale_cache 3 = None" by (simp add: stale_cache_def)
  show ?thesis
    using C2_invalidate[of 1 stale_cache two_modules] C2_invalidate[of 3 stale_cache two_modules]
          p s stale n3
    by (auto dest!: spec[of _ 7] spec[of _ "''kernel''"])
qed

text \<open>
  Claim C3. Let the cache agree with the program and the annotation list be well-formed
  for the entity. If the records about the entity, taken in the order of the list and
  each read left to right, give the values \<open>v # vs\<close> for a property (each value as
  stored, an \<^verbatim>\<open>unsigned\<close>), then \<^verbatim>\<open>findAllNVVMAnnotation\<close> returns the whole sequence
  \<open>v # vs\<close> and \<^verbatim>\<open>findOneNVVMAnnotation\<close> returns its first element \<open>v\<close>. The witness is
  the example of the specification: the records (maxntidx, 4) and (maxntidx, 8) give
  [4, 8] and 4.
\<close>

theorem C3_lookup_first_and_all:
  assumes "cache_consistent ir AC"
    and "well_formed_annotations (module_annotations ir (getParent ir gv)) gv"
    and "annotation_values (module_annotations ir (getParent ir gv)) gv name = v # vs"
  shows "(\<exists>AC'. findAllNVVMAnnotation ir gv name AC = Inr (Some (v # vs), AC'))
       \<and> (\<exists>AC'. findOneNVVMAnnotation ir gv name AC = Inr (Some v, AC'))"
  using findAll_values[OF assms(1,2), of name] findOne_values[OF assms(1,2), of name] assms(3)
  by auto

theorem C3_lookup_first_and_all_witness:
  "(\<exists>AC'. findAllNVVMAnnotation (single_module (Some maxntid_records) C no_stack_alignment) 7
             ''maxntidx'' [] = Inr (Some [4, 8], AC'))
   \<and> (\<exists>AC'. findOneNVVMAnnotation (single_module (Some maxntid_records) C no_stack_alignment) 7
             ''maxntidx'' [] = Inr (Some 4, AC'))"
proof -
  have cons: "cache_consistent (single_module (Some maxntid_records) C no_stack_alignment) []"
    by (simp add: cache_consistent_def cached_def)
  have wf: "well_formed_annotations maxntid_records 7"
    by code_simp
  have vals: "annotation_values maxntid_records 7 ''maxntidx'' = [4, 8]"
    by code_simp
  show ?thesis
    using C3_lookup_first_and_all[of "single_module (Some maxntid_records) C no_stack_alignment"
            "[]" 7 "''maxntidx''" 4 "[8]"] cons wf vals
    by simp
qed

text \<open>
  Claim C9. A record whose subject does not resolve to the requested entity, because it
  resolves to null or to another entity, is skipped: scanning it alone returns the
  accumulated map unchanged and without error, whatever its other operands are; the scan
  of an annotation list gives the same result with the record and without it; and so
  does the population of the cache. When the subject resolves to null this holds for
  every entity.
\<close>

theorem C9_null_subject_skipped:
  assumes "subject_entity elem = Inr s" and "s \<noteq> Some gv"
  shows "scan_annotations [elem] gv tmp = Inr tmp
       \<and> scan_annotations (pre @ elem # post) gv tmp = scan_annotations (pre @ post) gv tmp
       \<and> cacheAnnotationFromMD (with_annotations ir m (pre @ elem # post)) m gv AC
           = cacheAnnotationFromMD (with_annotations ir m (pre @ post)) m gv AC"
proof -
  have one: "scan_annotations [elem] gv tmp = Inr tmp"
    using scan_skip[OF assms, of "[]" tmp] by simp
  have all: "\<And>t. scan_annotations (pre @ elem # post) gv t = scan_annotations (pre @ post) gv t"
    using scan_skip[OF assms, of post] by (simp add: scan_append split: sum.splits)
  show ?thesis
    using one all by (simp add: cacheAnnotationFromMD_eq)
qed

theorem C9_null_subject_skipped_witness:
  "subject_entity [Null, MDString ''kernel''] = Inr None
   \<and> scan_annotations dangling_records 7 []
       = scan_annotations [[GlobalValueMD 7, MDString ''kernel'', ConstantInt 1],
                           [GlobalValueMD 7, MDString ''reqntidx'', ConstantInt 32]] 7 []"
proof -
  have s1: "subject_entity [Null, MDString ''kernel''] = Inr None"
    by (simp add: subject_entity_def)
  have n1: "None \<noteq> Some (7::nat)" by simp
  have s2: "subject_entity [GlobalValueMD 8, ConstantInt 3, OtherMetadata] = Inr (Some 8)"
    by (simp add: subject_entity_def)
  have n2: "Some 8 \<noteq> Some (7::nat)" by simp
  have "scan_annotations dangling_records 7 [] =
      scan_annotations [[GlobalValueMD 7, MDString ''kernel'', ConstantInt 1],
                        [GlobalValueMD 8, ConstantInt 3, OtherMetadata],
                        [GlobalValueMD 7, MDString ''reqntidx'', ConstantInt 32]] 7 []"
    unfolding dangling_records_def
    by (rule C9_null_subject_skipped[OF s1 n1,
          where pre = "[[GlobalValueMD 7, MDString ''kernel'', ConstantInt 1]]",
          THEN conjunct2, THEN conjunct1, unfolded append.simps])
  also have "\<dots> =
      scan_annotations [[GlobalValueMD 7, MDString ''kernel'', ConstantInt 1],
                        [GlobalValueMD 7, MDString ''reqntidx'', ConstantInt 32]] 7 []"
    by (rule C9_null_subject_skipped[OF s2 n2,
          where pre = "[[GlobalValueMD 7, MDString ''kernel'', ConstantInt 1]]",
          THEN conjunct2, THEN conjunct1, unfolded append.simps])
  finally show ?thesis using s1 by blast
qed

section \<open>Claims about the derived predicates\<close>

text \<open>
  Claim C4. Let the cache agree with the program and the annotation list be well-formed
  for the function \<open>F\<close>. If no record about \<open>F\<close> gives a value for "kernel", then
  \<^verbatim>\<open>isKernelFunction(F)\<close> is true exactly when the calling convention of \<open>F\<close> is
  \<open>PTX_Kernel\<close>.
\<close>

theorem C4_kernel_fallback:
  assumes "cache_consistent ir AC"
    and "well_formed_annotations (module_annotations ir (getParent ir F)) F"
    and "annotation_values (module_annotations ir (getParent ir F)) F ''kernel'' = []"
  shows "\<exists>AC'. isKernelFunction ir F AC = Inr (getCallingConv ir F = PTX_Kernel, AC')"
  using findOne_values[OF assms(1,2), of "''kernel''"] assms(3)
  by (auto simp: isKernelFunction_def)

theorem C4_kernel_fallback_witness:
  "(\<exists>AC'. isKernelFunction (single_module (Some maxntid_records) PTX_Kernel no_stack_alignment)
             7 [] = Inr (True, AC'))
   \<and> (\<exists>AC'. isKernelFunction (single_module None PTX_Device no_stack_alignment) 7 []
            = Inr (False, AC'))"
proof -
  have wf: "well_formed_annotations maxntid_records 7" "well_formed_annotations [] 7"
    by code_simp+
  have vals: "annotation_values maxntid_records 7 ''kernel'' = []"
    "annotation_values [] 7 ''kernel'' = []"
    by code_simp+
  show ?thesis
    using C4_kernel_fallback[of "single_module (Some maxntid_records) PTX_Kernel no_stack_alignment"
            "[]" 7]
          C4_kernel_fallback[of "single_module None PTX_Device no_stack_alignment" "[]" 7]
          wf vals
    by (simp add: cache_consistent_def cached_def)
qed

text \<open>
  Claim C10. Let the cache agree with the program and the annotation list be well-formed
  for the function \<open>F\<close>. If the first value recorded for "kernel" on \<open>F\<close> is \<open>v\<close>, then
  \<^verbatim>\<open>isKernelFunction(F)\<close> is \<open>v = 1\<close>; when \<open>v\<close> is not 1 the answer is false whatever the
  calling convention of \<open>F\<close> is. In the witness \<open>F\<close> has the \<open>PTX_Kernel\<close> calling
  convention and the annotation value 0.
\<close>

theorem C10_kernel_annotation_decides:
  assumes "cache_consistent ir AC"
    and "well_formed_annotations (module_annotations ir (getParent ir F)) F"
    and "annotation_values (module_annotations ir (getParent ir F)) F ''kernel'' = v # vs"
  shows "(\<exists>AC'. isKernelFunction ir F AC = Inr (v = 1, AC'))
       \<and> (v \<noteq> 1 \<longrightarrow> (\<exists>AC'. isKernelFunction ir F AC = Inr (False, AC')))"
  using findOne_values[OF assms(1,2), of "''kernel''"] assms(3)
  by (auto simp: isKernelFunction_def)

theorem C10_kernel_annotation_decides_witness:
  "getCallingConv (single_module (Some not_kernel_records) PTX_Kernel no_stack_alignment) 7
     = PTX_Kernel
   \<and> (\<exists>AC'. isKernelFunction (single_module (Some not_kernel_records) PTX_Kernel no_stack_alignment)
               7 [] = Inr (False, AC'))"
proof -
  have wf: "well_formed_annotations not_kernel_records 7"
    by code_simp
  have vals: "annotation_values not_kernel_records 7 ''kernel'' = [0]"
    by code_simp
  show ?thesis
    using C10_kernel_annotation_decides[of
            "single_module (Some not_kernel_records) PTX_Kernel no_stack_alignment" "[]" 7 0 "[]"]
          wf vals
    by (simp add: cache_consistent_def cached_def)
qed

section \<open>Claims about alignment resolution\<close>

lemma align_loop_first_match:
  "\<forall>W \<in> set pre. drop_bit 16 W \<noteq> Index \<Longrightarrow> drop_bit 16 V = Index \<Longrightarrow>
   align_loop mkAlign (pre @ V # post) Index =
     (case mkAlign (ucast (V AND 0xFFFF)) of Inl e \<Rightarrow> Inl e | Inr a \<Rightarrow> Inr (Some a))"
  by (induction pre) auto

lemma callalign_loop_prefix:
  "\<forall>p \<in> set pre. p \<noteq> Null
      \<and> (\<forall>d. p = ConstantInt d \<longrightarrow> drop_bit 16 (ucast d :: unsigned) < Index) \<Longrightarrow>
   callalign_loop mkAlign (pre @ rest) Index = callalign_loop mkAlign rest Index"
proof (induction pre)
  case Nil
  then show ?case by simp
next
  case (Cons p pre)
  then show ?case by (cases p) (auto simp: Let_def)
qed

lemma getAlign_values:
  assumes "getStackAlignment ir F Index = None"
    and "cache_consistent ir AC"
    and "well_formed_annotations (module_annotations ir (getParent ir F)) F"
  shows "\<exists>AC'. getAlign mkAlign ir F Index AC =
           (case align_loop mkAlign
                   (annotation_values (module_annotations ir (getParent ir F)) F ''align'') Index of
              Inl e \<Rightarrow> Inl e | Inr r \<Rightarrow> Inr (r, AC'))"
proof -
  from findAll_values[OF assms(2,3), of "''align''"] obtain AC' where
    r: "findAllNVVMAnnotation ir F ''align'' AC =
          Inr (case annotation_values (module_annotations ir (getParent ir F)) F ''align'' of
                 [] \<Rightarrow> None | v # vs \<Rightarrow> Some (v # vs), AC')" by blast
  show ?thesis
    using assms(1) r
    by (intro exI[of _ AC']) (auto simp: getAlign_def split: list.splits)
qed

text \<open>
  Claim C5. For a function and for a call site alike, alignment resolution returns the
  stack-alignment attribute of the given index whenever that attribute is set, without
  looking at the legacy annotations (the cache is returned untouched). When the attribute
  is not set and there is no legacy source either (no "align" value recorded for the
  function, the cache agreeing with a well-formed annotation list; no \<^verbatim>\<open>callalign\<close> node
  on the call), the result is "no alignment known". In the witness the attribute says 16
  and the legacy annotation (1 << 16) | 8 says 8 for the same index.
\<close>

theorem C5_structured_alignment_wins:
  "(getStackAlignment ir F Index = Some a \<longrightarrow>
      getAlign mkAlign ir F Index AC = Inr (Some a, AC))
   \<and> (callStackAlignment I Index = Some a \<longrightarrow>
      getAlign_call mkAlign I Index = Inr (Some a))
   \<and> (getStackAlignment ir F Index = None \<and> cache_consistent ir AC
        \<and> well_formed_annotations (module_annotations ir (getParent ir F)) F
        \<and> annotation_values (module_annotations ir (getParent ir F)) F ''align'' = []
      \<longrightarrow> (\<exists>AC'. getAlign mkAlign ir F Index AC = Inr (None, AC')))
   \<and> (callStackAlignment I Index = None \<and> callalign I = None \<longrightarrow>
      getAlign_call mkAlign I Index = Inr None)"
proof -
  have "getStackAlignment ir F Index = None \<and> cache_consistent ir AC
        \<and> well_formed_annotations (module_annotations ir (getParent ir F)) F
        \<and> annotation_values (module_annotations ir (getParent ir F)) F ''align'' = []
      \<longrightarrow> (\<exists>AC'. getAlign mkAlign ir F Index AC = Inr (None, AC'))"
    using getAlign_values[of ir F Index AC mkAlign] by auto
  then show ?thesis
    by (simp add: getAlign_def getAlign_call_def)
qed

theorem C5_structured_alignment_wins_witness:
  "getAlign align_value (single_module (Some legacy_align_8_at_1) C stack_alignment_16_at_1) 7 1 []
     = Inr (Some 16, [])
   \<and> getAlign_call align_value aligned_call 1 = Inr (Some 16)
   \<and> (\<exists>AC'. getAlign align_value (single_module (Some maxntid_records) C no_stack_alignment) 7 1 []
              = Inr (None, AC'))
   \<and> getAlign_call align_value plain_call 1 = Inr None"
proof -
  have wf: "well_formed_annotations maxntid_records 7" by code_simp
  have vals: "annotation_values maxntid_records 7 ''align'' = []" by code_simp
  have a: "getAlign align_value (single_module (Some legacy_align_8_at_1) C stack_alignment_16_at_1)
             7 1 [] = Inr (Some 16, [])"
    using C5_structured_alignment_wins[of
            "single_module (Some legacy_align_8_at_1) C stack_alignment_16_at_1" 7 1 16
            align_value "[]" aligned_call]
    by (simp add: stack_alignment_16_at_1_def)
  have b: "getAlign_call align_value aligned_call 1 = Inr (Some 16)"
    using C5_structured_alignment_wins[of
            "single_module (Some legacy_align_8_at_1) C stack_alignment_16_at_1" 7 1 16
            align_value "[]" aligned_call]
    by (simp add: stack_alignment_16_at_1_def aligned_call_def)
  have c: "\<exists>AC'. getAlign align_value (single_module (Some maxntid_records) C no_stack_alignment)
                   7 1 [] = Inr (None, AC')"
    using C5_structured_alignment_wins[of
            "single_module (Some maxntid_records) C no_stack_alignment" 7 1 16
            align_value "[]" plain_call] wf vals
    by (simp add: no_stack_alignment_def cache_consistent_def cached_def)
  have d: "getAlign_call align_value plain_call 1 = Inr None"
    using C5_structured_alignment_wins[of
            "single_module (Some maxntid_records) C no_stack_alignment" 7 1 16
            align_value "[]" plain_call]
    by (simp add: no_stack_alignment_def plain_call_def)
  show ?thesis using a b c d by blast
qed

text \<open>
  Claim C6. A packed value \<open>V\<close> is read as index \<open>V >> 16\<close> and alignment \<open>V & 0xFFFF\<close>.
  For a function without the attribute, the result comes from the first "align" value
  whose index is the requested one, wherever it stands in the list: the values before it
  may have any other index, larger ones included, so nothing ends the scan early. For a
  call without the attribute, with only smaller indices before the constant \<open>CI\<close> of the
  \<^verbatim>\<open>callalign\<close> node: if the index of \<open>CI\<close> is the requested one, the result is the
  alignment of its low 16 bits; if it is larger, the result is absent, whatever follows.
  In the witness the list (2, 8), (1, 4) gives 4 for index 1 as a function annotation and
  absent as a call annotation.
\<close>

theorem C6_legacy_alignment_decoding:
  "(getStackAlignment ir F Index = None \<and> cache_consistent ir AC
      \<and> well_formed_annotations (module_annotations ir (getParent ir F)) F
      \<and> annotation_values (module_annotations ir (getParent ir F)) F ''align'' = pre @ V # post
      \<and> (\<forall>W \<in> set pre. drop_bit 16 W \<noteq> Index) \<and> drop_bit 16 V = Index
    \<longrightarrow> (\<exists>AC'. getAlign mkAlign ir F Index AC =
                 (case mkAlign (ucast (V AND 0xFFFF)) of
                    Inl e \<Rightarrow> Inl e | Inr a \<Rightarrow> Inr (Some a, AC'))))
   \<and> (callStackAlignment I Index = None \<and> callalign I = Some (cpre @ ConstantInt CI # cpost)
      \<and> (\<forall>p \<in> set cpre. p \<noteq> Null
             \<and> (\<forall>d. p = ConstantInt d \<longrightarrow> drop_bit 16 (ucast d :: unsigned) < Index))
    \<longrightarrow> (drop_bit 16 (ucast CI :: unsigned) = Index \<longrightarrow>
           getAlign_call mkAlign I Index =
             (case mkAlign (ucast ((ucast CI :: unsigned) AND 0xFFFF)) of
                Inl e \<Rightarrow> Inl e | Inr a \<Rightarrow> Inr (Some a)))
        \<and> (drop_bit 16 (ucast CI :: unsigned) > Index \<longrightarrow>
           getAlign_call mkAlign I Index = Inr None))"
proof -
  have fn: "getStackAlignment ir F Index = None \<and> cache_consistent ir AC
      \<and> well_formed_annotations (module_annotations ir (getParent ir F)) F
      \<and> annotation_values (module_annotations ir (getParent ir F)) F ''align'' = pre @ V # post
      \<and> (\<forall>W \<in> set pre. drop_bit 16 W \<noteq> Index) \<and> drop_bit 16 V = Index
    \<longrightarrow> (\<exists>AC'. getAlign mkAlign ir F Index AC =
                 (case mkAlign (ucast (V AND 0xFFFF)) of
                    Inl e \<Rightarrow> Inl e | Inr a \<Rightarrow> Inr (Some a, AC')))"
  proof (intro impI, elim conjE)
    assume h: "getStackAlignment ir F Index = None" "cache_consistent ir AC"
      "well_formed_annotations (module_annotations ir (getParent ir F)) F"
      and vals: "annotation_values (module_annotations ir (getParent ir F)) F ''align''
                   = pre @ V # post"
      and pre: "\<forall>W \<in> set pre. drop_bit 16 W \<noteq> Index" and V: "drop_bit 16 V = Index"
    from getAlign_values[OF h, of mkAlign] obtain AC' where
      "getAlign mkAlign ir F Index AC =
         (case align_loop mkAlign (pre @ V # post) Index of
            Inl e \<Rightarrow> Inl e | Inr r \<Rightarrow> Inr (r, AC'))"
      unfolding vals by blast
    then have "getAlign mkAlign ir F Index AC =
                 (case mkAlign (ucast (V AND 0xFFFF)) of
                    Inl e \<Rightarrow> Inl e | Inr a \<Rightarrow> Inr (Some a, AC'))"
      unfolding align_loop_first_match[OF pre V] by (simp split: sum.splits)
    then show "\<exists>AC'. getAlign mkAlign ir F Index AC =
                 (case mkAlign (ucast (V AND 0xFFFF)) of
                    Inl e \<Rightarrow> Inl e | Inr a \<Rightarrow> Inr (Some a, AC'))" by blast
  qed
  have call: "callStackAlignment I Index = None
      \<and> callalign I = Some (cpre @ ConstantInt CI # cpost)
      \<and> (\<forall>p \<in> set cpre. p \<noteq> Null
             \<and> (\<forall>d. p = ConstantInt d \<longrightarrow> drop_bit 16 (ucast d :: unsigned) < Index))
    \<longrightarrow> (drop_bit 16 (ucast CI :: unsigned) = Index \<longrightarrow>
           getAlign_call mkAlign I Index =
             (case mkAlign (ucast ((ucast CI :: unsigned) AND 0xFFFF)) of
                Inl e \<Rightarrow> Inl e | Inr a \<Rightarrow> Inr (Some a)))
        \<and> (drop_bit 16 (ucast CI :: unsigned) > Index \<longrightarrow>
           getAlign_call mkAlign I Index = Inr None)"
    by (auto simp: getAlign_call_def callalign_loop_prefix Let_def)
  show ?thesis using fn call by blast
qed

theorem C6_legacy_alignment_decoding_witness:
  "(\<exists>AC'. getAlign align_value (single_module (Some unsorted_align) C no_stack_alignment) 7 1 []
            = Inr (Some 4, AC'))
   \<and> getAlign_call align_value unsorted_call 1 = Inr None
   \<and> getAlign_call align_value sorted_call 1 = Inr (Some 4)"
proof -
  have wf: "well_formed_annotations unsorted_align 7" by code_simp
  have vals: "annotation_values unsorted_align 7 ''align'' = [131080] @ 65540 # []" by code_simp
  have w1: "drop_bit 16 (131080 :: unsigned) \<noteq> 1" "drop_bit 16 (65540 :: unsigned) = 1"
    "(1::unsigned) < drop_bit 16 (ucast (131080 :: 64 word) :: unsigned)"
    "drop_bit 16 (ucast (65540 :: 64 word) :: unsigned) = (1::unsigned)"
    by code_simp+
  have w2: "align_value (ucast ((65540 :: unsigned) AND 0xFFFF)) = Inr 4"
     "align_value (ucast ((ucast (65540 :: 64 word) :: unsigned) AND 0xFFFF)) = Inr 4"
    by code_simp+
  have a: "\<exists>AC'. getAlign align_value (single_module (Some unsorted_align) C no_stack_alignment)
                   7 1 [] = Inr (Some 4, AC')"
    using C6_legacy_alignment_decoding[of
            "single_module (Some unsorted_align) C no_stack_alignment" 7 1 "[]"
            "[131080]" 65540 "[]" align_value unsorted_call "[]" 131080 "[ConstantInt 65540]"]
          wf vals w1 w2
    by (simp add: no_stack_alignment_def cache_consistent_def cached_def)
  have b: "getAlign_call align_value unsorted_call 1 = Inr None"
    using C6_legacy_alignment_decoding[of
            "single_module (Some unsorted_align) C no_stack_alignment" 7 1 "[]"
            "[131080]" 65540 "[]" align_value unsorted_call "[]" 131080 "[ConstantInt 65540]"]
          w1
    by (simp add: unsorted_call_def no_stack_alignment_def)
  have c: "getAlign_call align_value sorted_call 1 = Inr (Some 4)"
    using C6_legacy_alignment_decoding[of
            "single_module (Some unsorted_align) C no_stack_alignment" 7 1 "[]"
            "[131080]" 65540 "[]" align_value sorted_call "[]" 65540 "[ConstantInt 131080]"]
          w1 w2
    by (simp add: sorted_call_def no_stack_alignment_def)
  show ?thesis using a b c by blast
qed

section \<open>Claims about the boolean predicates\<close>

text \<open>
  Claim C7 as stated fails for the image predicates. They make no assertion about the
  recorded value: with the value 0 recorded for "rdoimage" on function 7, the predicate
  is true of argument 0 of that function and nothing fails; with the value 1 recorded
  the annotation is found and the predicate is false of argument 0.
\<close>

theorem C7_image_predicates_counterexample:
  "annotation_values rdoimage_0 7 ''rdoimage'' = [0]
   \<and> isImageReadOnly (single_module (Some rdoimage_0) C no_stack_alignment) (Argument 7 0) []
       = Inr (True, [(0, [(7, [(''rdoimage'', [0])])])])
   \<and> annotation_values rdoimage_1 7 ''rdoimage'' = [1]
   \<and> isImageReadOnly (single_module (Some rdoimage_1) C no_stack_alignment) (Argument 7 0) []
       = Inr (False, [(0, [(7, [(''rdoimage'', [1])])])])"
  by code_simp

text \<open>
  Claim C7, amended. Let the cache agree with the program and the annotation list be
  well-formed for \<open>g\<close>. On the global value \<open>g\<close>, each of \<^verbatim>\<open>isTexture\<close>, \<^verbatim>\<open>isSurface\<close>,
  \<^verbatim>\<open>isSampler\<close> and \<^verbatim>\<open>isManaged\<close> returns false when its annotation is not recorded;
  when it is recorded, the predicate asserts that the first recorded value is 1, returns
  true if so and fails the assertion otherwise. On an argument of the function \<open>g\<close>,
  each of \<^verbatim>\<open>isImageReadOnly\<close>, \<^verbatim>\<open>isImageWriteOnly\<close>, \<^verbatim>\<open>isImageReadWrite\<close> and
  \<^verbatim>\<open>isSampler\<close> asserts nothing and never fails: it returns true exactly when the
  position of the argument is among the values recorded for its annotation on \<open>g\<close>, and
  false otherwise, in particular when the annotation is not recorded.
\<close>

theorem C7_boolean_predicates:
  assumes "cache_consistent ir AC"
    and "well_formed_annotations (module_annotations ir (getParent ir g)) g"
  shows "asserts_flag isTexture ''texture'' ir g AC
       \<and> asserts_flag isSurface ''surface'' ir g AC
       \<and> asserts_flag isSampler ''sampler'' ir g AC
       \<and> asserts_flag isManaged ''managed'' ir g AC
       \<and> tests_position isImageReadOnly ''rdoimage'' ir g argNo AC
       \<and> tests_position isImageWriteOnly ''wroimage'' ir g argNo AC
       \<and> tests_position isImageReadWrite ''rdwrimage'' ir g argNo AC
       \<and> tests_position isSampler ''sampler'' ir g argNo AC"
proof -
  have f1: "asserts_flag isTexture ''texture'' ir g AC"
    using findOne_values[OF assms, of "''texture''"]
    by (auto simp: asserts_flag_def isTexture_def split: list.splits)
  have f2: "asserts_flag isSurface ''surface'' ir g AC"
    using findOne_values[OF assms, of "''surface''"]
    by (auto simp: asserts_flag_def isSurface_def split: list.splits)
  have f3: "asserts_flag isSampler ''sampler'' ir g AC"
    using findOne_values[OF assms, of "''sampler''"]
    by (auto simp: asserts_flag_def isSampler_def split: list.splits)
  have f4: "asserts_flag isManaged ''managed'' ir g AC"
    using findOne_values[OF assms, of "''managed''"]
    by (auto simp: asserts_flag_def isManaged_def split: list.splits)
  have p1: "tests_position isImageReadOnly ''rdoimage'' ir g argNo AC"
    using findAll_values[OF assms, of "''rdoimage''"]
    by (auto simp: tests_position_def isImageReadOnly_def split: list.splits)
  have p2: "tests_position isImageWriteOnly ''wroimage'' ir g argNo AC"
    using findAll_values[OF assms, of "''wroimage''"]
    by (auto simp: tests_position_def isImageWriteOnly_def split: list.splits)
  have p3: "tests_position isImageReadWrite ''rdwrimage'' ir g argNo AC"
    using findAll_values[OF assms, of "''rdwrimage''"]
    by (auto simp: tests_position_def isImageReadWrite_def split: list.splits)
  have p4: "tests_position isSampler ''sampler'' ir g argNo AC"
    using findAll_values[OF assms, of "''sampler''"]
    by (auto simp: tests_position_def isSampler_def split: list.splits)
  show ?thesis using f1 f2 f3 f4 p1 p2 p3 p4 by blast
qed

theorem C7_boolean_predicates_witness:
  "(\<exists>AC'. isTexture (single_module (Some texture_records) C no_stack_alignment) (GlobalValue 7) []
            = Inr (True, AC'))
   \<and> (\<exists>AC'. isSurface (single_module (Some texture_records) C no_stack_alignment) (GlobalValue 7) []
            = Inr (False, AC'))
   \<and> isSurface (single_module (Some texture_records) C no_stack_alignment) (GlobalValue 8) []
            = Inl Unexpected_annotation
   \<and> (\<exists>AC'. isImageReadOnly (single_module (Some rdoimage_0) C no_stack_alignment) (Argument 7 0) []
            = Inr (True, AC'))"
proof -
  have wf: "well_formed_annotations texture_records 7" "well_formed_annotations texture_records 8"
    "well_formed_annotations rdoimage_0 7"
    by code_simp+
  have vals: "annotation_values texture_records 7 ''texture'' = [1]"
    "annotation_values texture_records 7 ''surface'' = []"
    "annotation_values texture_records 8 ''surface'' = [2]"
    "annotation_values rdoimage_0 7 ''rdoimage'' = [0]"
    by code_simp+
  have cons: "\<And>NMD. cache_consistent (single_module NMD C no_stack_alignment) []"
    by (simp add: cache_consistent_def cached_def)
  show ?thesis
    using C7_boolean_predicates[of "single_module (Some texture_records) C no_stack_alignment" "[]" 7 0]
          C7_boolean_predicates[of "single_module (Some texture_records) C no_stack_alignment" "[]" 8 0]
          C7_boolean_predicates[of "single_module (Some rdoimage_0) C no_stack_alignment" "[]" 7 0]
          wf vals cons
    by (simp add: asserts_flag_def tests_position_def)
qed

end
